theory Spec2Isabelle
  imports Main
begin

section \<open>FASTA partitioning: index, planner and materializer\<close>

text \<open>
  A shallow embedding of \<^verbatim>\<open>src/dataplug/formats/genomics/fasta.py\<close>.

  Bytes objects are \<open>string\<close>s (lists of 8-bit characters). Python integers are
  unbounded, so sizes, offsets and counts are \<open>nat\<close> (they are never negative here)
  and the in-sequence offset of a slice is an \<open>int\<close>. The index is a NumPy array of
  \<open>uint32\<close>; the operations of NumPy are modelled with the semantics of NumPy 2:
  a Python integer that does not fit \<open>uint32\<close> is refused with \<open>OverflowError\<close>
  when it is converted to the array type, and arithmetic between a Python integer and a
  \<open>uint32\<close> value is done in \<open>uint32\<close>, where it wraps modulo \<open>2 ^ 32\<close>. Older
  releases of NumPy differ only on values outside \<open>[0, 2 ^ 32)\<close> (they wrap on
  conversion and subtract in 64 bits). Every raise of the source is a value \<open>Inl e\<close> of
  the model.
\<close>

datatype error = IndexError | OverflowError | AssertionError | ZeroDivisionError | ValueError

abbreviation newline :: char where
  "newline \<equiv> CHR 0x0A"

subsection \<open>The slice (partition plan)\<close>

text \<open>
  \<^verbatim>\<open>FASTASlice(offset, header, range_0, range_1)\<close>: the byte range
  \<open>[range_0, range_1)\<close> of the object, the in-sequence offset, and the byte range of
  the header line to put in front (\<open>None\<close> when the slice starts with a header).
\<close>

record FASTASlice =
  offset :: int
  header :: "(nat \<times> nat) option"
  range_0 :: nat
  range_1 :: nat

subsection \<open>The planner: \<^verbatim>\<open>partition_chunks_strategy\<close>\<close>

text \<open>
  \<^verbatim>\<open>a.searchsorted(v)\<close> with the default \<^verbatim>\<open>side='left'\<close>, for an array \<open>a\<close>
  in ascending order: the first index whose element is not below \<open>v\<close>, that is the
  number of leading elements below \<open>v\<close>. NumPy specifies the result for sorted arrays
  only and finds it by bisection; on a column that is not sorted the model and NumPy may
  differ, so the planner is evaluated on sorted indices only and its general theorem
  assumes the column sorted.
\<close>

fun searchsorted :: "nat list \<Rightarrow> nat \<Rightarrow> nat" where
  "searchsorted [] v = 0"
| "searchsorted (x # xs) v = (if x < v then Suc (searchsorted xs v) else 0)"

text \<open>
  \<^verbatim>\<open>chunk_sz = math.ceil(cloud_object.size / num_chunks)\<close>. The quotient is a
  float in Python, correctly rounded: for every size below \<open>2 ^ 53\<close> and every
  \<open>num_chunks\<close> below \<open>2 ^ 1074\<close> its ceiling is the exact ceiling of the quotient,
  which is what the model computes. From \<open>2 ^ 53\<close> on the float loses the low bits of
  the size, and a quotient under the smallest positive float \<open>2 ^ -1074\<close> becomes 0;
  there the source differs from the model, so every general statement about
  \<open>chunk_sz\<close> below carries these bounds or the 32-bit bound of the planner, under
  which source and model agree as well.
\<close>

definition chunk_sz :: "nat \<Rightarrow> nat \<Rightarrow> nat" where
  "chunk_sz object_size num_chunks = (object_size + num_chunks - 1) div num_chunks"

text \<open>
  \<^verbatim>\<open>ranges = [(chunk_sz * i, (chunk_sz * i) + chunk_sz) for i in range(num_chunks)]\<close>
\<close>

definition ranges :: "nat \<Rightarrow> nat \<Rightarrow> (nat \<times> nat) list" where
  "ranges object_size num_chunks =
     map (\<lambda>i. (chunk_sz object_size num_chunks * i, chunk_sz object_size num_chunks * i + chunk_sz object_size num_chunks))
       [0..<num_chunks]"

text \<open>
  The body of the loop \<^verbatim>\<open>for r0, r1 in ranges\<close>, for one candidate range. \<open>idx\<close> is
  the index array of shape \<open>(num_sequences, 2)\<close>, one row \<open>(header start, sequence
  start)\<close> per record; \<open>map snd idx\<close> is its column \<^verbatim>\<open>idx[:, 1]\<close>.

  \<^item> \<^verbatim>\<open>idx[seq_top_i]\<close> and \<^verbatim>\<open>idx[seq_bot_i]\<close> raise \<open>IndexError\<close> out of range.
    On an empty array \<^verbatim>\<open>idx.shape[0] - 1\<close> is \<open>-1\<close>, which is out of range as well;
    the truncated \<open>length idx - 1 = 0\<close> of the model is refused by the same test.
  \<^item> In the else branch \<^verbatim>\<open>r0 - top_seq_offset\<close> subtracts a \<open>uint32\<close> from a Python
    integer: \<open>r0\<close> is converted to \<open>uint32\<close> (\<open>OverflowError\<close> when it does not
    fit) and the difference wraps.
  \<^item> The second \<^verbatim>\<open>searchsorted\<close> is given \<open>r0\<close> (as adjusted by the first branch),
    as in the source.
\<close>

definition plan_range :: "(nat \<times> nat) list \<Rightarrow> nat \<times> nat \<Rightarrow> error + FASTASlice" where
  "plan_range idx r =
     (let r0 = fst r; r1 = snd r;
          seq_top_i = searchsorted (map snd idx) r0;
          seq_top_i = (if seq_top_i > 0 then seq_top_i - 1 else 0)
      in if \<not> seq_top_i < length idx then Inl IndexError
      else
        let top_id_offset = fst (idx ! seq_top_i);
            top_seq_offset = snd (idx ! seq_top_i);
            split_header = (top_id_offset \<le> r0 \<and> r0 < top_seq_offset)
        in if \<not> split_header \<and> \<not> r0 < 2 ^ 32 then Inl OverflowError
        else
          let offset' = (if split_header then 0 else (int r0 - int top_seq_offset) mod 2 ^ 32);
              header' = (if split_header then None else Some (top_id_offset, top_seq_offset));
              r0 = (if split_header then top_id_offset else r0);
              seq_bot_i = searchsorted (map snd idx) r0;
              seq_bot_i = (if seq_bot_i = length idx then length idx - 1 else seq_bot_i)
          in if \<not> seq_bot_i < length idx then Inl IndexError
          else
            let bot_id_offset = fst (idx ! seq_bot_i);
                bot_seq_offset = snd (idx ! seq_bot_i);
                r1 = (if bot_id_offset \<le> r1 \<and> r1 < bot_seq_offset then bot_id_offset else r1)
            in Inr \<lparr>offset = offset', header = header', range_0 = r0, range_1 = r1\<rparr>)"

text \<open>The loop itself: \<^verbatim>\<open>slices.append(...)\<close> for each range, stopping at the first raise.\<close>

fun slices_loop :: "(nat \<times> nat) list \<Rightarrow> (nat \<times> nat) list \<Rightarrow> FASTASlice list \<Rightarrow> error + FASTASlice list" where
  "slices_loop idx [] slices = Inr slices"
| "slices_loop idx (r # rs) slices =
     (case plan_range idx r of
        Inl e \<Rightarrow> Inl e
      | Inr s \<Rightarrow> slices_loop idx rs (slices @ [s]))"

text \<open>
  \<^verbatim>\<open>partition_chunks_strategy(cloud_object, num_chunks)\<close>, from the index array \<open>idx\<close>
  that its first two statements load and reshape (\<open>reshape\<close> below) and the size of the
  object. The division by \<open>num_chunks = 0\<close> raises.
\<close>

definition partition_chunks_strategy :: "(nat \<times> nat) list \<Rightarrow> nat \<Rightarrow> nat \<Rightarrow> error + FASTASlice list" where
  "partition_chunks_strategy idx object_size num_chunks =
     (if num_chunks = 0 then Inl ZeroDivisionError
      else slices_loop idx (ranges object_size num_chunks) [])"

subsection \<open>The materializer: \<^verbatim>\<open>FASTASlice.get\<close>\<close>

text \<open>
  The object store is an external collaborator: \<^verbatim>\<open>storage.get_object(Bucket, Key,
  Range=f"bytes={a}-{b}")\<close> is a function from the two numbers of the range to a response,
  of which the source reads \<^verbatim>\<open>["ResponseMetadata"]["HTTPStatusCode"]\<close> and
  \<^verbatim>\<open>['Body'].read()\<close>. Bucket and key are those of the one object at hand.
\<close>

record response =
  HTTPStatusCode :: nat
  Body :: string

type_synonym storage = "int \<times> int \<Rightarrow> response"

text \<open>Python's decimal \<^verbatim>\<open>str\<close> of an integer, as the f-string formats \<^verbatim>\<open>self.offset\<close>.\<close>

definition digit_char :: "nat \<Rightarrow> char" where
  "digit_char d = ''0123456789'' ! d"

function str_nat :: "nat \<Rightarrow> string" where
  "str_nat n = (if n < 10 then [digit_char n] else str_nat (n div 10) @ [digit_char (n mod 10)])"
  by pat_completeness auto
termination
  by (relation "measure id") auto

declare str_nat.simps [simp del]

definition str_int :: "int \<Rightarrow> string" where
  "str_int i = (if i < 0 then CHR ''-'' # str_nat (nat (- i)) else str_nat (nat i))"

text \<open>
  \<^verbatim>\<open>get\<close>. Both assertions of the source test \<^verbatim>\<open>get_response\<close>; the status of
  \<^verbatim>\<open>header_response\<close> is never read. \<^verbatim>\<open>header_line[:-1]\<close> is \<open>butlast\<close>.
  The last byte of a range request is \<^verbatim>\<open>range_1 - 1\<close> as an integer; a \<open>range_1\<close>
  of 0 that the planner trimmed is a \<open>uint32\<close> in the source, where the difference
  wraps to \<open>2 ^ 32 - 1\<close>. The store is a parameter, so this bears on which request is
  sent and not on how the answers are put together.
\<close>

definition get :: "storage \<Rightarrow> FASTASlice \<Rightarrow> error + string" where
  "get storage self =
     (let get_response = storage (int (range_0 self), int (range_1 self) - 1)
      in if HTTPStatusCode get_response \<notin> {200, 206} then Inl AssertionError
      else
        (case header self of
           None \<Rightarrow> Inr (Body get_response)
         | Some (header_r0, header_r1) \<Rightarrow>
             let header_response = storage (int header_r0, int header_r1 - 1)
             in if HTTPStatusCode get_response \<notin> {200, 206} then Inl AssertionError
             else
               let header_line = Body header_response
               in Inr (butlast header_line @ '' offset='' @ str_int (offset self) @ [newline]
                        @ Body get_response)))"

subsection \<open>The scanner: \<^verbatim>\<open>preprocess_fasta\<close>\<close>

text \<open>The \<^verbatim>\<open>.\<close> of the regular expression: any byte but the newline.\<close>

definition not_nl :: "char \<Rightarrow> bool" where
  "not_nl c = (c \<noteq> newline)"

text \<open>A match object: \<^verbatim>\<open>match.start()\<close> and \<^verbatim>\<open>match.group()\<close>; \<^verbatim>\<open>match.end()\<close>
  is the start plus the length of the group.\<close>

record re_match =
  match_start :: nat
  match_group :: string

definition match_end :: "re_match \<Rightarrow> nat" where
  "match_end m = match_start m + length (match_group m)"

text \<open>
  \<^verbatim>\<open>re.finditer(rb">.+(\n)?", data)\<close>: the non-overlapping matches from left to
  right. A match starts at a \<^verbatim>\<open>>\<close> that is followed by at least one byte other than
  the newline; the greedy \<^verbatim>\<open>.+\<close> takes every byte up to the next newline or the end of
  the data, and the optional group takes that newline when there is one. The search
  goes on after the match; where no match starts, it moves one byte on. \<open>pos\<close> is
  the position of the first byte of the remaining data.
\<close>

function finditer :: "nat \<Rightarrow> string \<Rightarrow> re_match list" where
  "finditer pos [] = []"
| "finditer pos (c # cs) =
     (if c = CHR ''>'' \<and> takeWhile not_nl cs \<noteq> [] then
        (case dropWhile not_nl cs of
           [] \<Rightarrow> [\<lparr>match_start = pos, match_group = c # takeWhile not_nl cs\<rparr>]
         | nl # rest \<Rightarrow>
             \<lparr>match_start = pos, match_group = c # takeWhile not_nl cs @ [nl]\<rparr>
               # finditer (pos + length (c # takeWhile not_nl cs @ [nl])) rest)
      else finditer (pos + 1) cs)"
  by pat_completeness auto
termination
proof (relation "measure (\<lambda>(pos, data). length data)")
  show "wf (measure (\<lambda>(pos, data). length data))"
    by simp
next
  fix pos :: nat and c :: char and cs :: string and nl :: char and rest :: string
  assume "dropWhile not_nl cs = nl # rest"
  then have "length (nl # rest) \<le> length cs"
    using length_dropWhile_le [of not_nl cs] by simp
  then show "((pos + length (c # takeWhile not_nl cs @ [nl]), rest), (pos, c # cs))
      \<in> measure (\<lambda>(pos, data). length data)"
    by simp
next
  fix pos :: nat and c :: char and cs :: string
  show "((pos + 1, cs), (pos, c # cs)) \<in> measure (\<lambda>(pos, data). length data)"
    by simp
qed

text \<open>
  \<^verbatim>\<open>fasta_file.readline()\<close> on the bytes that remain after \<^verbatim>\<open>seek(offset)\<close>: up to
  and including the first newline, or everything when there is none (nothing when the
  position is at or past the end of the file).
\<close>

definition readline :: "string \<Rightarrow> string" where
  "readline remaining =
     (case dropWhile not_nl remaining of
        [] \<Rightarrow> takeWhile not_nl remaining
      | nl # _ \<Rightarrow> takeWhile not_nl remaining @ [nl])"

text \<open>
  \<^verbatim>\<open>np.array(sequences, dtype=np.uint32)\<close> followed by \<^verbatim>\<open>tobytes()\<close>: the pairs
  in row-major order, as unsigned 32-bit numbers. A number that does not fit is refused
  (\<open>OverflowError\<close>). The metadata bytes are modelled as the list of the numbers
  they encode, which \<^verbatim>\<open>np.frombuffer(..., dtype=np.uint32)\<close> gives back.
\<close>

definition np_array_uint32 :: "(nat \<times> nat) list \<Rightarrow> error + nat list" where
  "np_array_uint32 sequences =
     (if list_all (\<lambda>(a, b). a < 2 ^ 32 \<and> b < 2 ^ 32) sequences
      then Inr (concat (map (\<lambda>(a, b). [a, b]) sequences))
      else Inl OverflowError)"

text \<open>
  \<^verbatim>\<open>preprocess_fasta(cloud_object, chunk_data, chunk_id, chunk_size, num_chunks)\<close>.
  \<open>cloud_object\<close> is the whole file that \<^verbatim>\<open>cloud_object.open("rb")\<close> reads, and
  \<open>chunk_data\<close> the bytes that \<^verbatim>\<open>chunk_data.read()\<close> returns.
\<close>

definition preprocess_fasta :: "string \<Rightarrow> string \<Rightarrow> nat \<Rightarrow> nat \<Rightarrow> nat \<Rightarrow> error + nat list" where
  "preprocess_fasta cloud_object chunk_data chunk_id chunk_size num_chunks =
     (let chunk_offset = chunk_id * chunk_size;
          data = chunk_data;
          matches = finditer 0 data;
          sequences = map (\<lambda>m. (chunk_offset + match_start m, chunk_offset + match_end m)) matches;
          sequences =
            (if matches \<noteq> [] \<and> newline \<notin> set (match_group (last matches)) then
               let offset = chunk_offset + match_start (last matches);
                   seq_id_line = readline (drop offset cloud_object);
                   end_offset = offset + length seq_id_line
               in butlast sequences @ [(offset, end_offset)]
             else sequences)
      in np_array_uint32 sequences)"

subsection \<open>The merger: \<^verbatim>\<open>merge_fasta_metadata\<close>\<close>

text \<open>
  The flat arrays of the chunks are concatenated; \<^verbatim>\<open>num_sequences\<close> is the integer
  part of the sum of the half lengths. \<^verbatim>\<open>np.concatenate\<close> needs at least one array:
  on an empty list of chunks it raises \<open>ValueError\<close>. The result is the pair of the
  metadata and the attribute \<^verbatim>\<open>num_sequences\<close>.
\<close>

definition merge_fasta_metadata :: "nat list list \<Rightarrow> error + nat list \<times> nat" where
  "merge_fasta_metadata chunk_metadata =
     (let map_results = chunk_metadata;
          num_sequences = sum_list (map length map_results) div 2
      in if map_results = [] then Inl ValueError
         else
           let idx = concat map_results
           in Inr (idx, num_sequences))"

text \<open>
  \<^verbatim>\<open>np.frombuffer(...).reshape((num_sequences, 2))\<close>, the first statement of the
  planner on the stored metadata: the rows of the flat array, refused
  (\<open>ValueError\<close>) when the length is not twice the number of rows.
\<close>

fun rows :: "nat list \<Rightarrow> (nat \<times> nat) list" where
  "rows (a # b # arr) = (a, b) # rows arr"
| "rows arr = []"

definition reshape :: "nat list \<Rightarrow> nat \<Rightarrow> error + (nat \<times> nat) list" where
  "reshape arr num_sequences =
     (if length arr = 2 * num_sequences then Inr (rows arr) else Inl ValueError)"

subsection \<open>The preprocessing driver\<close>

text \<open>
  Modelled from the spec: the driver that cuts the object into windows and calls the
  scanner on each is not in this source file. The spec has contiguous, non-overlapping
  windows that cover the whole file, scanned independently and merged in window order;
  the scanner computes the offset of window \<open>chunk_id\<close> as \<open>chunk_id * chunk_size\<close>,
  so the windows are the consecutive blocks of \<open>chunk_size\<close> bytes (the last one
  shorter). A window that raises makes the whole run raise. An empty file, or a chunk
  size of 0, gives no window at all, and the merger is called on an empty list.
\<close>

definition window :: "string \<Rightarrow> nat \<Rightarrow> nat \<Rightarrow> string" where
  "window cloud_object chunk_id chunk_size =
     take chunk_size (drop (chunk_id * chunk_size) cloud_object)"

definition num_windows :: "string \<Rightarrow> nat \<Rightarrow> nat" where
  "num_windows cloud_object chunk_size = (length cloud_object + chunk_size - 1) div chunk_size"

definition scan_windows :: "string \<Rightarrow> nat \<Rightarrow> (error + nat list) list" where
  "scan_windows cloud_object chunk_size =
     map (\<lambda>chunk_id. preprocess_fasta cloud_object (window cloud_object chunk_id chunk_size)
            chunk_id chunk_size (num_windows cloud_object chunk_size))
       [0..<num_windows cloud_object chunk_size]"

fun collect :: "(error + 'a) list \<Rightarrow> error + 'a list" where
  "collect [] = Inr []"
| "collect (Inl e # rs) = Inl e"
| "collect (Inr x # rs) = (case collect rs of Inl e \<Rightarrow> Inl e | Inr xs \<Rightarrow> Inr (x # xs))"

definition build_index :: "string \<Rightarrow> nat \<Rightarrow> error + nat list \<times> nat" where
  "build_index cloud_object chunk_size =
     (case collect (scan_windows cloud_object chunk_size) of
        Inl e \<Rightarrow> Inl e
      | Inr chunk_metadata \<Rightarrow> merge_fasta_metadata chunk_metadata)"

subsection \<open>Vocabulary of the claims\<close>

text \<open>The byte range of a slice.\<close>

definition slice_range :: "FASTASlice \<Rightarrow> nat \<times> nat" where
  "slice_range s = (range_0 s, range_1 s)"

text \<open>
  Half-open ranges that, taken in order, tile \<open>[lo, hi)\<close>: the first starts at
  \<open>lo\<close>, each next one starts where the one before ends (no gap, no overlap), and the
  last ends at \<open>hi\<close>.
\<close>

fun chained :: "nat \<Rightarrow> (nat \<times> nat) list \<Rightarrow> nat \<Rightarrow> bool" where
  "chained lo [] hi = (lo = hi)"
| "chained lo (r # rs) hi = (fst r = lo \<and> fst r \<le> snd r \<and> chained (snd r) rs hi)"

text \<open>The planner returns \<open>num_chunks\<close> slices whose ranges tile \<open>[0, hi)\<close>.\<close>

definition exact_cover :: "error + FASTASlice list \<Rightarrow> nat \<Rightarrow> nat \<Rightarrow> bool" where
  "exact_cover result num_chunks hi =
     (case result of
        Inl e \<Rightarrow> False
      | Inr slices \<Rightarrow> length slices = num_chunks \<and> chained 0 (map slice_range slices) hi)"

text \<open>
  An offset snapped back to the start of the first header line of the index when it lies
  in that line, and left where it is otherwise.
\<close>

definition snap_first_header :: "(nat \<times> nat) list \<Rightarrow> nat \<Rightarrow> nat" where
  "snap_first_header idx p =
     (if fst (hd idx) \<le> p \<and> p < snd (hd idx) then fst (hd idx) else p)"

text \<open>
  A candidate range that starts after the sequence start of some record and ends strictly
  inside the header line of the next record.
\<close>

definition ends_in_later_header :: "(nat \<times> nat) list \<Rightarrow> nat \<times> nat \<Rightarrow> bool" where
  "ends_in_later_header idx r =
     list_ex (\<lambda>k. snd (idx ! k) < fst r \<and> fst (idx ! Suc k) < snd r \<and> snd r < snd (idx ! Suc k))
       [0..<length idx - 1]"

text \<open>
  The end of a range as Step 3 of the spec words it, with the lookup applied to
  \<open>r1\<close>: the header start of a record whose header line holds \<open>r1\<close>, and \<open>r1\<close>
  itself when there is none. (This definition follows the spec, not the source.)
\<close>

definition spec_range_end :: "(nat \<times> nat) list \<Rightarrow> nat \<Rightarrow> nat" where
  "spec_range_end idx r1 =
     (case find (\<lambda>(h, s). h \<le> r1 \<and> r1 < s) idx of
        None \<Rightarrow> r1
      | Some (h, s) \<Rightarrow> h)"

text \<open>
  The header line with its trailing newline removed, as the spec words the first line
  of a fragment. (This definition follows the spec, not the source.)
\<close>

definition strip_trailing_newline :: "string \<Rightarrow> string" where
  "strip_trailing_newline line = (if line \<noteq> [] \<and> last line = newline then butlast line else line)"

text \<open>The first line of a byte buffer, without its newline.\<close>

definition first_line :: "string \<Rightarrow> string" where
  "first_line buff = takeWhile not_nl buff"

text \<open>
  The offset just after the header line that starts at offset \<open>h\<close> of the file: what
  \<^verbatim>\<open>seek(h)\<close>, \<^verbatim>\<open>readline()\<close> and \<^verbatim>\<open>tell()\<close> compute.
\<close>

definition line_end :: "string \<Rightarrow> nat \<Rightarrow> nat" where
  "line_end cloud_object h = h + length (readline (drop h cloud_object))"

text \<open>
  The boundary pairs of window \<open>chunk_id\<close> in closed form: one pair per match of the
  window, the offset of the match in the file and the end of the header line that starts
  there.
\<close>

definition window_pairs :: "string \<Rightarrow> nat \<Rightarrow> nat \<Rightarrow> (nat \<times> nat) list" where
  "window_pairs cloud_object chunk_id chunk_size =
     map (\<lambda>m. (chunk_id * chunk_size + match_start m,
               line_end cloud_object (chunk_id * chunk_size + match_start m)))
       (finditer 0 (window cloud_object chunk_id chunk_size))"

text \<open>
  Modelled from the spec: the object store is not part of this repository's source. The
  spec's contract is \<^verbatim>\<open>range_read(key, byte_start, byte_end_exclusive) -> bytes\<close> with
  a status, partial content being a success. \<open>range_read_store object\<close> serves the
  inclusive range \<open>bytes=a-b\<close> of \<open>object\<close> with status 206; it is used to state
  concrete inputs only.
\<close>

definition range_read_store :: "string \<Rightarrow> storage" where
  "range_read_store object = (\<lambda>(a, b). \<lparr>HTTPStatusCode = 206, Body = take (nat (b - a + 1)) (drop (nat a) object)\<rparr>)"

section \<open>The planner\<close>

subsection \<open>Candidate ranges and the lookup\<close>

lemma chunk_sz_ceiling:
  assumes "0 < n"
  shows "sz \<le> chunk_sz sz n * n" and "chunk_sz sz n * n < sz + n"
proof -
  let ?a = "sz + n - 1"
  have d: "?a = ?a div n * n + ?a mod n" by simp
  have m: "?a mod n < n" using assms by simp
  have "?a mod n \<le> n - 1" using m by simp
  show "sz \<le> chunk_sz sz n * n" unfolding chunk_sz_def using d m assms by linarith
  show "chunk_sz sz n * n < sz + n" unfolding chunk_sz_def using d assms by linarith
qed

lemma length_ranges: "length (ranges sz n) = n"
  by (simp add: ranges_def)

lemma nth_ranges: "i < n \<Longrightarrow> ranges sz n ! i = (chunk_sz sz n * i, chunk_sz sz n * i + chunk_sz sz n)"
  by (simp add: ranges_def)

lemma chained_append:
  "chained lo (rs @ [r]) hi = (chained lo rs (fst r) \<and> fst r \<le> snd r \<and> snd r = hi)"
  by (induction rs arbitrary: lo) auto

lemma chained_blocks: "chained 0 (map (\<lambda>i. (c * i, c * i + c)) [0..<n]) (c * n)"
  by (induction n) (auto simp: chained_append)

lemma chained_ranges: "chained 0 (ranges sz n) (chunk_sz sz n * n)"
  unfolding ranges_def by (rule chained_blocks)



lemma searchsorted_below: "k < searchsorted xs v \<Longrightarrow> xs ! k < v"
proof (induction xs arbitrary: k)
  case Nil
  then show ?case by simp
next
  case (Cons x xs)
  then show ?case by (cases k) (auto split: if_splits)
qed







lemmas planner_eval = partition_chunks_strategy_def ranges_def chunk_sz_def plan_range_def upt_rec Let_def

subsection \<open>Step 1: the candidate ranges\<close>

text \<open>
  C6, as the spec states it: the last candidate range is clipped to the object size, so
  that no candidate range extends past the end of the object. The source does not clip:
  for an object of 10 bytes and 3 chunks the last candidate range is \<open>[8, 12)\<close>.
\<close>

theorem ranges_last_not_clipped:
  "\<not> snd (last (ranges 10 3)) \<le> 10"
  by (simp add: ranges_def chunk_sz_def upt_rec)

text \<open>
  C6, amended: for an object size below \<open>2 ^ 53\<close> and \<open>1 \<le> num_chunks < 2 ^ 1074\<close>
  (where the ceiling of the float quotient of the source is the exact ceiling) Step 1
  produces \<open>num_chunks\<close> contiguous
  candidate ranges, each of exactly \<open>chunk_sz = ceil(object_size / num_chunks)\<close> bytes,
  the \<open>i\<close>-th being \<open>[chunk_sz * i, chunk_sz * i + chunk_sz)\<close>. The first starts at 0
  and the last ends at \<open>chunk_sz * num_chunks\<close>, which is at least the object size
  and less than \<open>object_size + num_chunks\<close>: it is not clipped.
\<close>

theorem ranges_contiguous_unclipped:
  assumes "1 \<le> num_chunks" and "num_chunks < 2 ^ 1074" and "object_size < 2 ^ 53"
  shows "length (ranges object_size num_chunks) = num_chunks
       \<and> (\<forall>i < num_chunks. ranges object_size num_chunks ! i =
             (chunk_sz object_size num_chunks * i,
              chunk_sz object_size num_chunks * i + chunk_sz object_size num_chunks))
       \<and> chained 0 (ranges object_size num_chunks) (chunk_sz object_size num_chunks * num_chunks)
       \<and> snd (last (ranges object_size num_chunks)) = chunk_sz object_size num_chunks * num_chunks
       \<and> object_size \<le> chunk_sz object_size num_chunks * num_chunks
       \<and> chunk_sz object_size num_chunks * num_chunks < object_size + num_chunks"
proof -
  have pos: "0 < num_chunks" using assms by simp
  have ne: "ranges object_size num_chunks \<noteq> []"
    using pos length_ranges [of object_size num_chunks] by auto
  have "last (ranges object_size num_chunks) = ranges object_size num_chunks ! (num_chunks - 1)"
    using last_conv_nth [OF ne] by (simp add: length_ranges)
  also have "\<dots> = (chunk_sz object_size num_chunks * (num_chunks - 1),
      chunk_sz object_size num_chunks * (num_chunks - 1) + chunk_sz object_size num_chunks)"
    using pos by (simp add: nth_ranges)
  finally have "snd (last (ranges object_size num_chunks))
      = chunk_sz object_size num_chunks * (num_chunks - 1) + chunk_sz object_size num_chunks"
    by simp
  also have "\<dots> = chunk_sz object_size num_chunks * num_chunks"
    using pos by (metis Suc_pred' add.commute mult_Suc_right)
  finally have lst: "snd (last (ranges object_size num_chunks)) = chunk_sz object_size num_chunks * num_chunks" .
  show ?thesis
    using lst length_ranges [of object_size num_chunks] chained_ranges [of object_size num_chunks]
      chunk_sz_ceiling [OF pos, of object_size]
    by (simp add: nth_ranges)
qed

theorem ranges_contiguous_unclipped_witness:
  "(1::nat) \<le> 3 \<and> (3::nat) < 2 ^ 1074 \<and> (10::nat) < 2 ^ 53 \<and> length (ranges 10 3) = 3 \<and> chained 0 (ranges 10 3) 12
   \<and> snd (last (ranges 10 3)) = 12 \<and> (10::nat) \<le> 12"
  using ranges_contiguous_unclipped [of 3 10]
  by (simp add: chunk_sz_def)

subsection \<open>The planner on concrete inputs\<close>

text \<open>
  C3: for the index \<open>[(0,7),(12,19)]\<close>, an object of 24 bytes and two chunks, the
  spec has the second plan start at the header offset 12 with in-sequence offset 0 and no
  header range. The source looks the start 12 up in the column of sequence starts and
  steps one record back, to record \<open>(0,7)\<close>, so the second slice has offset
  \<open>12 - 7 = 5\<close> and the header range \<open>(0,7)\<close> of the first record.
\<close>

theorem planner_two_records_two_chunks:
  "partition_chunks_strategy [(0, 7), (12, 19)] 24 2 =
     Inr [\<lparr>offset = 0, header = None, range_0 = 0, range_1 = 12\<rparr>,
          \<lparr>offset = 5, header = Some (0, 7), range_0 = 12, range_1 = 24\<rparr>]"
  by (simp add: planner_eval)

text \<open>
  C2: the spec determines the end of a range by a lookup applied to \<open>r1\<close>. The source
  looks \<open>r0\<close> up instead. For the index \<open>[(0,7),(12,19)]\<close>, an object of 30 bytes and
  two chunks, the first candidate range is \<open>[0, 15)\<close>; its end 15 lies inside the
  header line \<open>[12, 19)\<close> of the second record, so the spec trims it to 12, and the
  source leaves it at 15.
\<close>

theorem planner_end_lookup_uses_start:
  "partition_chunks_strategy [(0, 7), (12, 19)] 30 2 =
     Inr [\<lparr>offset = 0, header = None, range_0 = 0, range_1 = 15\<rparr>,
          \<lparr>offset = 8, header = Some (0, 7), range_0 = 15, range_1 = 30\<rparr>]
   \<and> spec_range_end [(0, 7), (12, 19)] 15 = 12"
  by (simp add: planner_eval spec_range_end_def)

text \<open>
  C4: on an empty index the spec returns every candidate range unmodified. The source
  reads row 0 of the empty array for the first range and raises \<open>IndexError\<close>, for
  every object size and every \<open>num_chunks \<ge> 1\<close>.
\<close>

theorem planner_empty_index_raises:
  assumes "1 \<le> num_chunks"
  shows "partition_chunks_strategy [] object_size num_chunks = Inl IndexError"
proof -
  have "[0..<num_chunks] = 0 # [Suc 0..<num_chunks]"
    using assms by (simp add: upt_rec)
  then have "ranges object_size num_chunks =
      (0, chunk_sz object_size num_chunks)
        # map (\<lambda>i. (chunk_sz object_size num_chunks * i,
              chunk_sz object_size num_chunks * i + chunk_sz object_size num_chunks)) [Suc 0..<num_chunks]"
    by (simp add: ranges_def)
  moreover have "plan_range [] (0, chunk_sz object_size num_chunks) = Inl IndexError"
    by (simp add: plan_range_def)
  ultimately show ?thesis
    using assms by (simp add: partition_chunks_strategy_def)
qed

theorem planner_empty_index_raises_witness:
  "(1::nat) \<le> 2 \<and> partition_chunks_strategy [] 24 2 = Inl IndexError"
  using planner_empty_index_raises [of 2 24]
  by simp

subsection \<open>Coverage\<close>





subsection \<open>The ranges that the coverage theorem leaves out\<close>

text \<open>
  On a sorted index, a candidate range that starts after the sequence start of a record
  and ends strictly inside the header line of the next record is trimmed back to that
  header start, and the following range does not start there: the plans do not tile. So
  the coverage theorem leaves out only inputs on which its cover fails. Two inputs with
  a boundary inside a header line that it does not leave out are evaluated last.
\<close>

lemma searchsorted_above:
  "k < length xs \<Longrightarrow> \<forall>m \<le> k. xs ! m < v \<Longrightarrow> k < searchsorted xs v"
proof (induction xs arbitrary: k)
  case Nil
  then show ?case by simp
next
  case (Cons x xs)
  have x: "x < v" using Cons.prems(2) by (metis le0 nth_Cons_0)
  show ?case
  proof (cases k)
    case 0
    then show ?thesis using x by simp
  next
    case (Suc k')
    have "\<forall>m \<le> k'. xs ! m < v"
    proof (intro allI impI)
      fix m assume "m \<le> k'"
      then have "(x # xs) ! Suc m < v" using Cons.prems(2) Suc by (metis Suc_le_mono)
      then show "xs ! m < v" by simp
    qed
    then have "k' < searchsorted xs v" using Cons.IH [of k'] Cons.prems(1) Suc by simp
    then show ?thesis using x Suc by simp
  qed
qed

lemma searchsorted_sorted_eq:
  assumes "sorted xs" and "Suc k < length xs" and "xs ! k < v" and "v \<le> xs ! Suc k"
  shows "searchsorted xs v = Suc k"
proof -
  have "\<forall>m \<le> k. xs ! m < v"
  proof (intro allI impI)
    fix m assume "m \<le> k"
    then have "xs ! m \<le> xs ! k" using assms(1,2) by (simp add: sorted_nth_mono)
    then show "xs ! m < v" using assms(3) by simp
  qed
  then have "k < searchsorted xs v" using searchsorted_above [of k xs v] assms(2) by simp
  moreover have "\<not> Suc k < searchsorted xs v"
    using searchsorted_below [of "Suc k" xs v] assms(4) by auto
  ultimately show ?thesis by simp
qed

lemma plan_range_start:
  assumes "plan_range idx (r0, r1) = Inr s"
  shows "range_0 s = snap_first_header idx r0"
proof -
  let ?seq = "map snd idx"
  define j where "j = searchsorted ?seq r0"
  define t where "t = (if 0 < j then j - 1 else 0)"
  have t: "t < length idx"
    using assms unfolding plan_range_def Let_def fst_conv snd_conv j_def [symmetric] t_def [symmetric]
    by (auto split: if_splits)
  then have hd: "hd idx = idx ! 0" by (cases idx) simp_all
  define sh where "sh = (fst (idx ! t) \<le> r0 \<and> r0 < snd (idx ! t))"
  have r: "range_0 s = (if sh then fst (idx ! t) else r0)"
    using assms unfolding plan_range_def Let_def fst_conv snd_conv j_def [symmetric] t_def [symmetric]
      sh_def [symmetric]
    by (auto split: if_splits)
  show ?thesis
  proof (cases "0 < j")
    case True
    have "t < searchsorted ?seq r0" "0 < searchsorted ?seq r0"
      using True by (simp_all add: t_def j_def)
    then have "?seq ! t < r0" "?seq ! 0 < r0"
      by (simp_all add: searchsorted_below)
    moreover have "0 < length idx" using t by (cases idx) simp_all
    ultimately have "snd (idx ! t) < r0" "snd (idx ! 0) < r0"
      using t by simp_all
    then show ?thesis by (simp add: r sh_def snap_first_header_def hd)
  next
    case False
    then show ?thesis by (simp add: r sh_def snap_first_header_def hd t_def)
  qed
qed

lemma plan_range_trimmed:
  assumes srt: "sorted (map snd idx)" and k: "Suc k < length idx"
    and after: "snd (idx ! k) < r0" and le: "r0 \<le> r1"
    and in_hdr: "fst (idx ! Suc k) < r1" "r1 < snd (idx ! Suc k)"
    and res: "plan_range idx (r0, r1) = Inr s"
  shows "range_0 s = r0 \<and> range_1 s = fst (idx ! Suc k)"
proof -
  let ?seq = "map snd idx"
  have j: "searchsorted ?seq r0 = Suc k"
    using searchsorted_sorted_eq [OF srt, of k r0] k after le in_hdr(2) by simp
  have sk: "\<not> (fst (idx ! k) \<le> r0 \<and> r0 < snd (idx ! k))"
    using after by simp
  show ?thesis
    using res k in_hdr sk
    by (auto simp: plan_range_def Let_def j split: if_splits)
qed

lemma slices_loop_nth:
  "slices_loop idx rs acc = Inr ss \<Longrightarrow>
   \<exists>ts. ss = acc @ ts \<and> length ts = length rs \<and> (\<forall>i < length rs. plan_range idx (rs ! i) = Inr (ts ! i))"
proof (induction rs arbitrary: acc)
  case Nil
  then show ?case by simp
next
  case (Cons r rs)
  then obtain s where s: "plan_range idx r = Inr s"
      and rest: "slices_loop idx rs (acc @ [s]) = Inr ss"
    by (auto split: sum.splits)
  from Cons.IH [OF rest] obtain ts where ts: "ss = (acc @ [s]) @ ts" "length ts = length rs"
      "\<forall>i < length rs. plan_range idx (rs ! i) = Inr (ts ! i)"
    by blast
  have "\<forall>i < length (r # rs). plan_range idx ((r # rs) ! i) = Inr ((s # ts) ! i)"
  proof (intro allI impI)
    fix i assume "i < length (r # rs)"
    then show "plan_range idx ((r # rs) ! i) = Inr ((s # ts) ! i)"
      using s ts(3) by (cases i) simp_all
  qed
  then show ?case using ts(1,2) by (intro exI [of _ "s # ts"]) simp
qed

lemma chained_next:
  "chained lo rs hi \<Longrightarrow> Suc i < length rs \<Longrightarrow> snd (rs ! i) = fst (rs ! Suc i)"
proof (induction rs arbitrary: lo i)
  case Nil
  then show ?case by simp
next
  case (Cons r rs)
  show ?case
  proof (cases i)
    case 0
    then show ?thesis using Cons.prems by (cases rs) simp_all
  next
    case (Suc i')
    then show ?thesis using Cons.IH [of "snd r" i'] Cons.prems by simp
  qed
qed

lemma chained_last: "chained lo rs hi \<Longrightarrow> rs \<noteq> [] \<Longrightarrow> snd (last rs) = hi"
  by (induction rs arbitrary: lo) (auto split: if_splits)

lemma planner_gap_after_later_trim:
  assumes srt: "sorted (map snd idx)"
    and r: "r \<in> set (ranges object_size num_chunks)"
    and slip: "ends_in_later_header idx r"
  shows "\<not> exact_cover (partition_chunks_strategy idx object_size num_chunks) num_chunks
            (snap_first_header idx (chunk_sz object_size num_chunks * num_chunks))"
proof
  let ?c = "chunk_sz object_size num_chunks"
  let ?rs = "ranges object_size num_chunks"
  assume cover: "exact_cover (partition_chunks_strategy idx object_size num_chunks) num_chunks
      (snap_first_header idx (?c * num_chunks))"
  then obtain ss where res: "partition_chunks_strategy idx object_size num_chunks = Inr ss"
      and ch: "chained 0 (map slice_range ss) (snap_first_header idx (?c * num_chunks))"
    by (auto simp: exact_cover_def split: sum.splits)
  have loop: "slices_loop idx ?rs [] = Inr ss"
    using res by (simp add: partition_chunks_strategy_def split: if_splits)
  from slices_loop_nth [OF loop]
  have len: "length ss = num_chunks" and each: "\<forall>i < num_chunks. plan_range idx (?rs ! i) = Inr (ss ! i)"
    by (simp_all add: length_ranges)
  obtain i where i: "i < num_chunks" and ri: "r = (?c * i, ?c * i + ?c)"
    using r by (auto simp: ranges_def)
  obtain k where k': "k < length idx - 1" and after: "snd (idx ! k) < ?c * i"
      and in_hdr: "fst (idx ! Suc k) < ?c * i + ?c" "?c * i + ?c < snd (idx ! Suc k)"
    using slip unfolding ends_in_later_header_def list_ex_iff ri by auto
  have k: "Suc k < length idx" using k' by simp
  have "plan_range idx (?c * i, ?c * i + ?c) = Inr (ss ! i)"
    using each i by (simp add: nth_ranges)
  then have end_i: "range_1 (ss ! i) = fst (idx ! Suc k)"
    using plan_range_trimmed [OF srt k after _ in_hdr] by simp
  show False
  proof (cases "Suc i < num_chunks")
    case True
    have "plan_range idx (?rs ! Suc i) = Inr (ss ! Suc i)"
      using each True by blast
    then have "plan_range idx (?c * Suc i, ?c * Suc i + ?c) = Inr (ss ! Suc i)"
      by (simp only: nth_ranges [OF True])
    then have "range_0 (ss ! Suc i) = snap_first_header idx (?c * Suc i)"
      by (rule plan_range_start)
    moreover have "0 < length idx" using k by (cases idx) simp_all
    then have "map snd idx ! 0 = snd (idx ! 0)" by (rule nth_map)
    then have "snd (idx ! 0) \<le> snd (idx ! k)"
      using srt k sorted_nth_mono [of "map snd idx" 0 k] by simp
    then have "snap_first_header idx (?c * Suc i) = ?c * Suc i"
      using after k by (cases idx) (simp_all add: snap_first_header_def)
    ultimately have start: "range_0 (ss ! Suc i) = ?c * i + ?c" by simp
    have "snd (map slice_range ss ! i) = fst (map slice_range ss ! Suc i)"
      using chained_next [OF ch] True len by simp
    then have "range_1 (ss ! i) = range_0 (ss ! Suc i)"
      using True len by (simp add: slice_range_def)
    then show False using end_i start in_hdr(1) by simp
  next
    case False
    then have last_i: "i = num_chunks - 1" using i by simp
    have ne: "ss \<noteq> []" using len i by auto
    have a2: "?c * i \<le> ?c * num_chunks" using i by simp
    have "0 < length idx" using k by (cases idx) simp_all
    then have "map snd idx ! 0 = snd (idx ! 0)" by (rule nth_map)
    then have a1: "snd (idx ! 0) \<le> snd (idx ! k)"
      using srt k sorted_nth_mono [of "map snd idx" 0 k] by simp
    have "snd (idx ! 0) < ?c * num_chunks"
      using a1 after a2 by linarith
    then have "snap_first_header idx (?c * num_chunks) = ?c * num_chunks"
      using k by (cases idx) (simp_all add: snap_first_header_def)
    then have "snd (last (map slice_range ss)) = ?c * num_chunks"
      using chained_last [OF ch] ne by simp
    moreover have "last ss = ss ! i"
      using last_conv_nth [OF ne] len last_i by simp
    then have "last (map slice_range ss) = slice_range (ss ! i)"
      using ne by (simp add: last_map)
    ultimately have "range_1 (ss ! i) = ?c * num_chunks"
      by (simp add: slice_range_def)
    moreover have "?c * i + ?c = ?c * num_chunks"
      using i last_i by (metis Suc_pred' add.commute mult_Suc_right not_gr_zero not_less_zero)
    ultimately show False using end_i in_hdr(1) by simp
  qed
qed

lemma planner_boundary_in_header_covered:
  "list_all (\<lambda>r. \<not> ends_in_later_header [(0, 7)] r) (ranges 20 4)
   \<and> map_sum id (map slice_range) (partition_chunks_strategy [(0, 7)] 20 4)
       = Inr [(0, 0), (0, 10), (10, 15), (15, 20)]
   \<and> list_all (\<lambda>r. \<not> ends_in_later_header [(0, 7), (12, 19)] r) (ranges 30 2)
   \<and> map_sum id (map slice_range) (partition_chunks_strategy [(0, 7), (12, 19)] 30 2)
       = Inr [(0, 15), (15, 30)]"
  by (simp add: planner_eval ends_in_later_header_def slice_range_def)

section \<open>The materializer\<close>

subsection \<open>The offset annotation holds no newline\<close>

lemma digit_char_not_newline: "d < 10 \<Longrightarrow> digit_char d \<noteq> newline"
proof -
  assume "d < 10"
  then have "digit_char d \<in> set ''0123456789''"
    unfolding digit_char_def by (intro nth_mem) simp
  then show ?thesis by auto
qed

lemma str_nat_no_newline: "newline \<notin> set (str_nat n)"
proof (induction n rule: str_nat.induct)
  case (1 n)
  show ?case
  proof (cases "n < 10")
    case True
    then show ?thesis using digit_char_not_newline [of n] by (subst str_nat.simps) simp
  next
    case False
    have "n mod 10 < 10" by simp
    then have "digit_char (n mod 10) \<noteq> newline" by (rule digit_char_not_newline)
    then show ?thesis using 1 False by (subst str_nat.simps) simp
  qed
qed

lemma str_int_no_newline: "newline \<notin> set (str_int i)"
  by (simp add: str_int_def str_nat_no_newline)

lemma first_line_annotated:
  assumes "newline \<notin> set h"
  shows "first_line (h @ '' offset='' @ str_int i @ [newline] @ payload) = h @ '' offset='' @ str_int i"
proof -
  have all: "\<And>c. c \<in> set (h @ '' offset='' @ str_int i) \<Longrightarrow> not_nl c"
    using assms str_int_no_newline [of i] by (auto simp: not_nl_def)
  have "takeWhile not_nl ((h @ '' offset='' @ str_int i) @ ([newline] @ payload))
      = (h @ '' offset='' @ str_int i) @ takeWhile not_nl ([newline] @ payload)"
    by (rule takeWhile_append2) (rule all)
  then show ?thesis by (simp add: first_line_def not_nl_def)
qed

subsection \<open>The output of \<^verbatim>\<open>get\<close>\<close>

text \<open>
  C10: for every slice with a header range whose payload read is accepted, the
  materializer drops the last byte of the bytes read from the header range, whatever that
  byte is, and puts the annotation \<^verbatim>\<open> offset=<offset>\<close> and a newline after the
  rest, followed by the payload. So when the header bytes are not empty and hold no
  newline (a header at the end of a file without a final newline), the first line of the
  output is the header without its last character, a genuine one, followed by the
  annotation: not the header stripped of a newline.
\<close>

theorem get_drops_last_header_byte:
  assumes hdr: "header self = Some (header_r0, header_r1)"
    and ok: "HTTPStatusCode (storage (int (range_0 self), int (range_1 self) - 1)) \<in> {200, 206}"
  shows "get storage self =
           Inr (butlast (Body (storage (int header_r0, int header_r1 - 1)))
                @ '' offset='' @ str_int (offset self) @ [newline]
                @ Body (storage (int (range_0 self), int (range_1 self) - 1)))
       \<and> (Body (storage (int header_r0, int header_r1 - 1)) \<noteq> []
            \<and> newline \<notin> set (Body (storage (int header_r0, int header_r1 - 1)))
          \<longrightarrow> first_line (butlast (Body (storage (int header_r0, int header_r1 - 1)))
                @ '' offset='' @ str_int (offset self) @ [newline]
                @ Body (storage (int (range_0 self), int (range_1 self) - 1)))
              = butlast (Body (storage (int header_r0, int header_r1 - 1))) @ '' offset='' @ str_int (offset self)
            \<and> butlast (Body (storage (int header_r0, int header_r1 - 1))) @ [last (Body (storage (int header_r0, int header_r1 - 1)))]
              = Body (storage (int header_r0, int header_r1 - 1))
            \<and> last (Body (storage (int header_r0, int header_r1 - 1))) \<noteq> newline
            \<and> butlast (Body (storage (int header_r0, int header_r1 - 1)))
              \<noteq> strip_trailing_newline (Body (storage (int header_r0, int header_r1 - 1))))"
proof -
  let ?hl = "Body (storage (int header_r0, int header_r1 - 1))"
  have out: "get storage self =
           Inr (butlast ?hl @ '' offset='' @ str_int (offset self) @ [newline]
                @ Body (storage (int (range_0 self), int (range_1 self) - 1)))"
    using hdr ok by (simp add: get_def Let_def)
  have rest: "first_line (butlast ?hl @ '' offset='' @ str_int (offset self) @ [newline]
                @ Body (storage (int (range_0 self), int (range_1 self) - 1)))
              = butlast ?hl @ '' offset='' @ str_int (offset self)
            \<and> butlast ?hl @ [last ?hl] = ?hl
            \<and> last ?hl \<noteq> newline
            \<and> butlast ?hl \<noteq> strip_trailing_newline ?hl"
    if ne: "?hl \<noteq> []" and nonl: "newline \<notin> set ?hl"
  proof -
    have "newline \<notin> set (butlast ?hl)"
      using nonl by (meson in_set_butlastD)
    then have a: "first_line (butlast ?hl @ '' offset='' @ str_int (offset self) @ [newline]
                @ Body (storage (int (range_0 self), int (range_1 self) - 1)))
              = butlast ?hl @ '' offset='' @ str_int (offset self)"
      by (rule first_line_annotated)
    have b: "last ?hl \<noteq> newline" using ne nonl last_in_set by metis
    have c: "butlast ?hl \<noteq> ?hl"
    proof
      assume e: "butlast ?hl = ?hl"
      have "length (butlast ?hl) = length ?hl - 1" by simp
      then have "length ?hl = length ?hl - 1" by (simp only: e)
      moreover have "0 < length ?hl" using ne by simp
      ultimately show False by arith
    qed
    show ?thesis using a b c ne by (simp add: strip_trailing_newline_def)
  qed
  show ?thesis using out rest by blast
qed

lemmas scanner_eval = build_index_def scan_windows_def num_windows_def window_def preprocess_fasta_def
  np_array_uint32_def merge_fasta_metadata_def readline_def not_nl_def match_end_def upt_rec Let_def

theorem get_drops_last_header_byte_witness:
  "header \<lparr>offset = 4294967291, header = Some (3, 5), range_0 = 0, range_1 = 5\<rparr> = Some (3, 5)
   \<and> HTTPStatusCode (range_read_store ''AC\<newline>>x'' (0, 4)) \<in> {200, 206}
   \<and> Body (range_read_store ''AC\<newline>>x'' (3, 4)) = ''>x''
   \<and> get (range_read_store ''AC\<newline>>x'')
       \<lparr>offset = 4294967291, header = Some (3, 5), range_0 = 0, range_1 = 5\<rparr>
     = Inr (''>'' @ '' offset='' @ str_int 4294967291 @ [newline] @ ''AC\<newline>>x'')
   \<and> first_line (''>'' @ '' offset='' @ str_int 4294967291 @ [newline] @ ''AC\<newline>>x'')
     = ''>'' @ '' offset='' @ str_int 4294967291"
  using get_drops_last_header_byte [of "\<lparr>offset = 4294967291, header = Some (3, 5), range_0 = 0, range_1 = 5\<rparr>" 3 5 "range_read_store ''AC\<newline>>x''"]
  by (simp add: range_read_store_def)

text \<open>
  C7: the spec has the header bytes with the trailing newline removed in front of the
  annotation. The 5-byte object \<^verbatim>\<open>AC\n>x\<close> has the index \<open>[(3,5)]\<close>, and for one
  chunk the planner returns the slice \<open>[0,5)\<close> with the header range \<open>(3,5)\<close>. The
  header bytes \<^verbatim>\<open>>x\<close> end with no newline; the spec's first line keeps them whole,
  and the source emits \<^verbatim>\<open>>\<close> alone in front of the annotation, whatever the
  offset of the slice.
\<close>

theorem get_truncates_unterminated_header:
  "get (range_read_store ''AC\<newline>>x'')
       \<lparr>offset = ofs, header = Some (3, 5), range_0 = 0, range_1 = 5\<rparr>
     = Inr (''>'' @ '' offset='' @ str_int ofs @ ''\<newline>AC\<newline>>x'')
   \<and> strip_trailing_newline (Body (range_read_store ''AC\<newline>>x'' (3, 4))) = ''>x''
   \<and> map_sum id (map (\<lambda>s. (header s, slice_range s))) (partition_chunks_strategy [(3, 5)] 5 1)
     = Inr [(Some (3, 5), (0, 5))]
   \<and> build_index ''AC\<newline>>x'' 5 = Inr ([3, 5], 1)"
proof (intro conjI)
  show "get (range_read_store ''AC\<newline>>x'')
       \<lparr>offset = ofs, header = Some (3, 5), range_0 = 0, range_1 = 5\<rparr>
     = Inr (''>'' @ '' offset='' @ str_int ofs @ ''\<newline>AC\<newline>>x'')"
    by (simp add: get_def range_read_store_def)
  show "strip_trailing_newline (Body (range_read_store ''AC\<newline>>x'' (3, 4))) = ''>x''"
    by (simp add: range_read_store_def strip_trailing_newline_def)
  show "map_sum id (map (\<lambda>s. (header s, slice_range s))) (partition_chunks_strategy [(3, 5)] 5 1)
     = Inr [(Some (3, 5), (0, 5))]"
    by (simp add: planner_eval slice_range_def)
  show "build_index ''AC\<newline>>x'' 5 = Inr ([3, 5], 1)"
    by (simp add: scanner_eval)
qed

text \<open>
  C8: the spec surfaces a status outside \<open>{200, 206}\<close> of either read as a fatal
  error. The second assertion of the source tests the payload response again, so a header
  read that answers 500 passes, and its body is used as the header line.
\<close>

theorem get_ignores_header_status:
  "get (\<lambda>r. if r = (12, 23) then \<lparr>HTTPStatusCode = 206, Body = ''>seq2\<newline>GGGG\<newline>''\<rparr>
             else \<lparr>HTTPStatusCode = 500, Body = ''InternalError\<newline>''\<rparr>)
       \<lparr>offset = 5, header = Some (0, 7), range_0 = 12, range_1 = 24\<rparr>
     = Inr ''InternalError offset=5\<newline>>seq2\<newline>GGGG\<newline>''"
  by (simp add: get_def str_int_def str_nat.simps digit_char_def)

section \<open>The scanner and the merger\<close>

subsection \<open>Reading a line\<close>

lemma readline_Nil: "readline [] = []"
  by (simp add: readline_def)

lemma readline_Cons: "readline (x # xs) = (if not_nl x then x # readline xs else [x])"
proof (cases "not_nl x")
  case True
  then show ?thesis
    by (cases "dropWhile not_nl xs") (simp_all add: readline_def del: dropWhile_eq_Nil_conv)
next
  case False
  then show ?thesis by (simp add: readline_def)
qed

lemma readline_header:
  assumes c: "not_nl c" and d: "dropWhile not_nl cs = nl # rest"
  shows "readline (c # cs @ post) = c # takeWhile not_nl cs @ [nl]"
proof -
  have nl: "\<not> not_nl nl"
    using d hd_dropWhile [of not_nl cs] by simp
  have "readline (cs @ post) = takeWhile not_nl cs @ [nl]"
    using d
  proof (induction cs)
    case Nil
    then show ?case by simp
  next
    case (Cons x xs)
    then show ?case using nl by (cases "not_nl x") (simp_all add: readline_Cons)
  qed
  then show ?thesis using c by (simp add: readline_Cons)
qed

lemma length_readline_drop: "length (readline xs) \<le> k + length (readline (drop k xs))"
proof (induction k arbitrary: xs)
  case 0
  then show ?case by simp
next
  case (Suc k)
  show ?case
  proof (cases xs)
    case Nil
    then show ?thesis by (simp add: readline_Nil)
  next
    case (Cons x ys)
    have "length (readline (x # ys)) \<le> Suc (length (readline ys))"
      by (simp add: readline_Cons)
    also have "\<dots> \<le> Suc (k + length (readline (drop k ys)))"
      using Suc.IH [of ys] by simp
    finally show ?thesis using Cons by simp
  qed
qed

lemma line_end_mono: "h \<le> h' \<Longrightarrow> line_end file h \<le> line_end file h'"
proof -
  assume "h \<le> h'"
  then obtain k where k: "h' = h + k" using le_Suc_ex by blast
  have "drop h' file = drop k (drop h file)"
    by (simp add: k add.commute)
  then show ?thesis
    using length_readline_drop [of "drop h file" k] by (simp add: line_end_def k)
qed

lemma line_end_greater: "h < length file \<Longrightarrow> h < line_end file h"
proof -
  assume "h < length file"
  then have "drop h file \<noteq> []" by simp
  then have "readline (drop h file) \<noteq> []"
    by (cases "drop h file") (simp_all add: readline_Cons)
  then show ?thesis by (simp add: line_end_def)
qed

lemma length_readline_le: "length (readline xs) \<le> length xs"
  by (induction xs) (simp_all add: readline_Nil readline_Cons)

lemma line_end_le: "h \<le> length file \<Longrightarrow> line_end file h \<le> length file"
  using length_readline_le [of "drop h file"] by (simp add: line_end_def)

subsection \<open>The matches of a window\<close>

lemma finditer_skip:
  "\<not> (c = CHR ''>'' \<and> takeWhile not_nl cs \<noteq> []) \<Longrightarrow> finditer pos (c # cs) = finditer (pos + 1) cs"
  by auto

lemma finditer_last:
  "c = CHR ''>'' \<Longrightarrow> takeWhile not_nl cs \<noteq> [] \<Longrightarrow> dropWhile not_nl cs = [] \<Longrightarrow>
   finditer pos (c # cs) = [\<lparr>match_start = pos, match_group = c # takeWhile not_nl cs\<rparr>]"
  by (simp del: dropWhile_eq_Nil_conv)

lemma finditer_match:
  "c = CHR ''>'' \<Longrightarrow> takeWhile not_nl cs \<noteq> [] \<Longrightarrow> dropWhile not_nl cs = nl # rest \<Longrightarrow>
   finditer pos (c # cs) =
     \<lparr>match_start = pos, match_group = c # takeWhile not_nl cs @ [nl]\<rparr>
       # finditer (pos + length (c # takeWhile not_nl cs @ [nl])) rest"
  by simp

lemma dropWhile_Cons_length:
  "dropWhile P cs = nl # rest \<Longrightarrow> length cs = length (takeWhile P cs) + Suc (length rest)"
  using arg_cong [OF takeWhile_dropWhile_id [of P cs], of length] by simp

lemma finditer_bounds:
  "m \<in> set (finditer pos data) \<Longrightarrow> pos \<le> match_start m \<and> match_start m < pos + length data"
proof (induction pos data rule: finditer.induct)
  case (1 pos)
  then show ?case by simp
next
  case (2 pos c cs)
  show ?case
  proof (cases "c = CHR ''>'' \<and> takeWhile not_nl cs \<noteq> []")
    case False
    then have "m \<in> set (finditer (pos + 1) cs)"
      using "2.prems" finditer_skip [OF False, of pos] by simp
    then show ?thesis using "2.IH"(2) [OF False] by simp
  next
    case True
    show ?thesis
    proof (cases "dropWhile not_nl cs")
      case Nil
      then have "m = \<lparr>match_start = pos, match_group = c # takeWhile not_nl cs\<rparr>"
        using "2.prems" True finditer_last [of c cs pos] by simp
      then show ?thesis by simp
    next
      case (Cons nl rest)
      let ?g = "c # takeWhile not_nl cs @ [nl]"
      consider "m = \<lparr>match_start = pos, match_group = ?g\<rparr>"
        | "m \<in> set (finditer (pos + length ?g) rest)"
        using "2.prems" True Cons finditer_match [of c cs nl rest pos] by auto
      then show ?thesis
      proof cases
        case 1
        then show ?thesis by simp
      next
        case 2
        then show ?thesis
          using "2.IH"(1) [OF True Cons] dropWhile_Cons_length [OF Cons] by simp
      qed
    qed
  qed
qed

lemma finditer_sorted: "sorted_wrt (<) (map match_start (finditer pos data))"
proof (induction pos data rule: finditer.induct)
  case (1 pos)
  then show ?case by simp
next
  case (2 pos c cs)
  show ?case
  proof (cases "c = CHR ''>'' \<and> takeWhile not_nl cs \<noteq> []")
    case False
    then show ?thesis using "2.IH"(2) [OF False] finditer_skip [OF False, of pos] by simp
  next
    case True
    show ?thesis
    proof (cases "dropWhile not_nl cs")
      case Nil
      then show ?thesis using True finditer_last [of c cs pos] by simp
    next
      case (Cons nl rest)
      let ?g = "c # takeWhile not_nl cs @ [nl]"
      have "\<forall>m \<in> set (finditer (pos + length ?g) rest). pos < match_start m"
        using finditer_bounds [of _ "pos + length ?g" rest] by fastforce
      then show ?thesis
        using "2.IH"(1) [OF True Cons] True finditer_match [of c cs nl rest pos] Cons by simp
    qed
  qed
qed

lemma finditer_butlast_newline:
  "m \<in> set (butlast (finditer pos data)) \<Longrightarrow> newline \<in> set (match_group m)"
proof (induction pos data rule: finditer.induct)
  case (1 pos)
  then show ?case by simp
next
  case (2 pos c cs)
  show ?case
  proof (cases "c = CHR ''>'' \<and> takeWhile not_nl cs \<noteq> []")
    case False
    then show ?thesis using "2.IH"(2) [OF False] "2.prems" finditer_skip [OF False, of pos] by simp
  next
    case True
    show ?thesis
    proof (cases "dropWhile not_nl cs")
      case Nil
      then show ?thesis using "2.prems" True finditer_last [of c cs pos] by simp
    next
      case (Cons nl rest)
      let ?g = "c # takeWhile not_nl cs @ [nl]"
      have nl: "nl = newline"
        using Cons hd_dropWhile [of not_nl cs] by (simp add: not_nl_def)
      have "m \<in> set (butlast (\<lparr>match_start = pos, match_group = ?g\<rparr> # finditer (pos + length ?g) rest))"
        using "2.prems" True Cons finditer_match [of c cs nl rest pos] by simp
      then consider "m = \<lparr>match_start = pos, match_group = ?g\<rparr>"
        | "m \<in> set (butlast (finditer (pos + length ?g) rest))"
        by (auto split: if_splits)
      then show ?thesis
      proof cases
        case 1
        then show ?thesis using nl by simp
      next
        case 2
        then show ?thesis using "2.IH"(1) [OF True Cons] by simp
      qed
    qed
  qed
qed

lemma finditer_line_end:
  assumes "drop (off + pos) file = data @ post" and "m \<in> set (finditer pos data)"
    and "newline \<in> set (match_group m)"
  shows "off + match_end m = line_end file (off + match_start m)"
  using assms
proof (induction pos data arbitrary: post rule: finditer.induct)
  case (1 pos)
  then show ?case by simp
next
  case (2 pos c cs)
  show ?case
  proof (cases "c = CHR ''>'' \<and> takeWhile not_nl cs \<noteq> []")
    case False
    have "drop 1 (drop (off + pos) file) = cs @ post"
      using "2.prems"(1) by simp
    then have "drop (off + (pos + 1)) file = cs @ post"
      by (simp add: add.commute add.left_commute)
    moreover have "m \<in> set (finditer (pos + 1) cs)"
      using "2.prems"(2) finditer_skip [OF False, of pos] by simp
    ultimately show ?thesis using "2.IH"(2) [OF False _ _ "2.prems"(3)] by blast
  next
    case True
    show ?thesis
    proof (cases "dropWhile not_nl cs")
      case Nil
      then have "m = \<lparr>match_start = pos, match_group = c # takeWhile not_nl cs\<rparr>"
        using "2.prems"(2) True finditer_last [of c cs pos] by simp
      moreover have "newline \<notin> set (c # takeWhile not_nl cs)"
        using True by (auto simp: not_nl_def dest: set_takeWhileD)
      ultimately show ?thesis using "2.prems"(3) by simp
    next
      case (Cons nl rest)
      let ?g = "c # takeWhile not_nl cs @ [nl]"
      have cs: "cs = takeWhile not_nl cs @ nl # rest"
        using Cons takeWhile_dropWhile_id [of not_nl cs] by simp
      have c: "not_nl c" using True by (simp add: not_nl_def)
      have rl: "readline (drop (off + pos) file) = ?g"
        using "2.prems"(1) readline_header [OF c Cons, of post] by simp
      consider "m = \<lparr>match_start = pos, match_group = ?g\<rparr>"
        | "m \<in> set (finditer (pos + length ?g) rest)"
        using "2.prems"(2) True Cons finditer_match [of c cs nl rest pos] by auto
      then show ?thesis
      proof cases
        case 1
        then show ?thesis using rl by (simp add: line_end_def match_end_def)
      next
        case 2
        have "c # cs @ post = ?g @ (rest @ post)"
          using arg_cong [OF cs, of "\<lambda>x. c # x @ post"] by simp
        then have e: "drop (off + pos) file = ?g @ (rest @ post)"
          using "2.prems"(1) by simp
        have "drop (length ?g) (drop (off + pos) file) = drop (length ?g) (?g @ (rest @ post))"
          by (simp only: e)
        also have "\<dots> = rest @ post"
          by simp
        finally have "drop (length ?g) (drop (off + pos) file) = rest @ post" .
        moreover have "drop (off + (pos + length ?g)) file = drop (length ?g) (drop (off + pos) file)"
          by (simp only: drop_drop ac_simps)
        ultimately have "drop (off + (pos + length ?g)) file = rest @ post"
          by (simp only:)
        then show ?thesis
          using "2.IH"(1) [OF True Cons _ 2 "2.prems"(3)] by blast
      qed
    qed
  qed
qed

subsection \<open>Flat arrays and their rows\<close>

lemma rows_flat_append:
  "rows (concat (map (\<lambda>(a, b). [a, b]) ps) @ arr) = ps @ rows arr"
  by (induction ps) auto

lemma rows_flat: "rows (concat (map (\<lambda>(a, b). [a, b]) ps)) = ps"
  using rows_flat_append [of ps "[]"] by simp

lemma length_flat: "length (concat (map (\<lambda>(a, b). [a, b]) ps)) = 2 * length ps"
  by (induction ps) auto

lemma rows_concat_flat:
  "rows (concat (map (\<lambda>ps. concat (map (\<lambda>(a, b). [a, b]) ps)) pss)) = concat pss"
  by (induction pss) (simp_all add: rows_flat_append)

lemma length_concat_flat:
  "length (concat (map (\<lambda>ps. concat (map (\<lambda>(a, b). [a, b]) ps)) pss)) = 2 * length (concat pss)"
  by (induction pss) (simp_all add: length_flat)

lemma np_array_uint32_Inr:
  "np_array_uint32 sequences = Inr meta \<Longrightarrow> meta = concat (map (\<lambda>(a, b). [a, b]) sequences)"
  by (auto simp: np_array_uint32_def split: if_splits)

subsection \<open>The pairs of a window\<close>

lemma window_prefix:
  "drop (chunk_id * chunk_size) file = window file chunk_id chunk_size @ drop chunk_size (drop (chunk_id * chunk_size) file)"
  unfolding window_def by (rule append_take_drop_id [symmetric])

lemma preprocess_fasta_eq:
  assumes w: "drop (chunk_id * chunk_size) file = data @ post"
  shows "preprocess_fasta file data chunk_id chunk_size n =
     np_array_uint32 (map (\<lambda>m. (chunk_id * chunk_size + match_start m,
                     line_end file (chunk_id * chunk_size + match_start m))) (finditer 0 data))"
proof -
  let ?off = "chunk_id * chunk_size"
  let ?ms = "finditer 0 data"
  let ?f = "\<lambda>m. (?off + match_start m, ?off + match_end m)"
  let ?g = "\<lambda>m. (?off + match_start m, line_end file (?off + match_start m))"
  let ?seqs = "(if ?ms \<noteq> [] \<and> newline \<notin> set (match_group (last ?ms)) then
                 butlast (map ?f ?ms) @ [(?off + match_start (last ?ms),
                     ?off + match_start (last ?ms) + length (readline (drop (?off + match_start (last ?ms)) file)))]
               else map ?f ?ms)"
  have w0: "drop (?off + 0) file = data @ post" using w by simp
  have nl: "\<And>m. m \<in> set ?ms \<Longrightarrow> newline \<in> set (match_group m) \<Longrightarrow> ?f m = ?g m"
    using finditer_line_end [OF w0] by simp
  have seqs: "?seqs = map ?g ?ms"
  proof (cases "?ms = []")
    case True
    then show ?thesis by simp
  next
    case False
    then have split: "?ms = butlast ?ms @ [last ?ms]" by simp
    have "\<And>m. m \<in> set (butlast ?ms) \<Longrightarrow> ?f m = ?g m"
      using nl finditer_butlast_newline [of _ 0 data] in_set_butlastD by metis
    then have bl: "map ?f (butlast ?ms) = map ?g (butlast ?ms)" by simp
    have g: "map ?g ?ms = map ?g (butlast ?ms) @ [?g (last ?ms)]"
      using arg_cong [OF split, of "map ?g"] by simp
    show ?thesis
    proof (cases "newline \<in> set (match_group (last ?ms))")
      case True
      have "?f (last ?ms) = ?g (last ?ms)"
        using nl [OF _ True] False by simp
      moreover have "map ?f ?ms = map ?f (butlast ?ms) @ [?f (last ?ms)]"
        using arg_cong [OF split, of "map ?f"] by simp
      ultimately show ?thesis using True bl g by simp
    next
      case nonl: False
      have "?seqs = map ?f (butlast ?ms) @ [?g (last ?ms)]"
        using False nonl by (simp add: map_butlast line_end_def)
      then show ?thesis using bl g by simp
    qed
  qed
  have "preprocess_fasta file data chunk_id chunk_size n = np_array_uint32 ?seqs"
    unfolding preprocess_fasta_def Let_def ..
  then show ?thesis
    by (simp only: seqs)
qed

lemma preprocess_fasta_window:
  "preprocess_fasta file (window file chunk_id chunk_size) chunk_id chunk_size n =
     np_array_uint32 (window_pairs file chunk_id chunk_size)"
  using preprocess_fasta_eq [OF window_prefix] by (simp add: window_pairs_def)

lemma window_meta:
  assumes "preprocess_fasta file (window file chunk_id chunk_size) chunk_id chunk_size n = Inr meta"
  shows "meta = concat (map (\<lambda>(a, b). [a, b]) (window_pairs file chunk_id chunk_size))"
  using assms np_array_uint32_Inr by (simp add: preprocess_fasta_window)

lemma window_pairs_bounds:
  assumes "p \<in> set (window_pairs file chunk_id chunk_size)"
  shows "chunk_id * chunk_size \<le> fst p \<and> fst p < chunk_id * chunk_size + chunk_size
       \<and> fst p < length file \<and> snd p = line_end file (fst p) \<and> fst p < snd p"
proof -
  let ?off = "chunk_id * chunk_size"
  let ?data = "window file chunk_id chunk_size"
  obtain m where m: "m \<in> set (finditer 0 ?data)"
      and p: "p = (?off + match_start m, line_end file (?off + match_start m))"
    using assms by (auto simp: window_pairs_def)
  have st: "match_start m < length ?data"
    using finditer_bounds [OF m] by simp
  have "length ?data = min chunk_size (length file - ?off)"
    by (simp add: window_def)
  then have "match_start m < chunk_size \<and> match_start m < length file - ?off"
    using st by simp
  then have "match_start m < chunk_size" "?off + match_start m < length file"
    by arith+
  then show ?thesis
    using p line_end_greater [of "?off + match_start m" "file"] by simp
qed

lemma window_pairs_sorted: "sorted_wrt (<) (map fst (window_pairs file chunk_id chunk_size))"
proof -
  have "map fst (window_pairs file chunk_id chunk_size)
      = map (\<lambda>s. chunk_id * chunk_size + s) (map match_start (finditer 0 (window file chunk_id chunk_size)))"
    by (simp add: window_pairs_def comp_def)
  then show ?thesis
    using finditer_sorted [of 0 "window file chunk_id chunk_size"]
    by (simp add: sorted_wrt_map)
qed

subsection \<open>The merged index\<close>

lemma concat_windows_sorted:
  "sorted_wrt (<) (map fst (concat (map (\<lambda>i. window_pairs file i chunk_size) [0..<n])))
   \<and> (\<forall>p \<in> set (concat (map (\<lambda>i. window_pairs file i chunk_size) [0..<n])). fst p < n * chunk_size)"
proof (induction n)
  case 0
  then show ?case by simp
next
  case (Suc n)
  let ?prev = "concat (map (\<lambda>i. window_pairs file i chunk_size) [0..<n])"
  have cat: "concat (map (\<lambda>i. window_pairs file i chunk_size) [0..<Suc n]) = ?prev @ window_pairs file n chunk_size"
    by simp
  have new: "\<forall>q \<in> set (window_pairs file n chunk_size). n * chunk_size \<le> fst q \<and> fst q < Suc n * chunk_size"
    using window_pairs_bounds [of _ "file" n chunk_size] by (simp add: add.commute)
  have "sorted_wrt (<) (map fst (?prev @ window_pairs file n chunk_size))"
    using Suc new window_pairs_sorted [of "file" n chunk_size]
    by (fastforce simp: sorted_wrt_append)
  moreover have "\<forall>p \<in> set (?prev @ window_pairs file n chunk_size). fst p < Suc n * chunk_size"
    using Suc new by fastforce
  ultimately show ?case by (simp only: cat) 
qed

lemma sorted_line_end:
  assumes "sorted_wrt (<) (map fst ps)" and "\<forall>p \<in> set ps. snd p = line_end file (fst p)"
  shows "sorted (map snd ps)"
proof -
  have "sorted_wrt (\<lambda>p q. fst p < fst q) ps"
    using assms(1) by (simp add: sorted_wrt_map)
  then have "sorted_wrt (\<lambda>p q. snd p \<le> snd q) ps"
  proof (rule sorted_wrt_mono_rel [rotated])
    fix p q assume "p \<in> set ps" "q \<in> set ps" "fst p < fst q"
    then show "snd p \<le> snd q"
      using assms(2) line_end_mono [of "fst p" "fst q" "file"] by simp
  qed
  then show ?thesis by (simp add: sorted_wrt_map)
qed

lemma collect_Inr: "collect rs = Inr xs \<Longrightarrow> rs = map Inr xs"
proof (induction rs arbitrary: xs)
  case Nil
  then show ?case by simp
next
  case (Cons r rs)
  then show ?case by (cases r) (auto split: sum.splits)
qed

lemma collect_map_Inr: "collect (map Inr xs) = Inr xs"
  by (induction xs) simp_all

lemma window_returns:
  assumes "length file < 2 ^ 32"
  shows "preprocess_fasta file (window file chunk_id chunk_size) chunk_id chunk_size n =
     Inr (concat (map (\<lambda>(a, b). [a, b]) (window_pairs file chunk_id chunk_size)))"
proof -
  have "a < 2 ^ 32 \<and> b < 2 ^ 32" if "(a, b) \<in> set (window_pairs file chunk_id chunk_size)" for a b
  proof -
    have "a < length file" "b = line_end file a"
      using window_pairs_bounds [OF that] by simp_all
    then have "a < length file" "b \<le> length file"
      using line_end_le [of a "file"] by simp_all
    then show ?thesis using assms by simp
  qed
  then have "list_all (\<lambda>(a, b). a < 2 ^ 32 \<and> b < 2 ^ 32) (window_pairs file chunk_id chunk_size)"
    by (auto simp: list_all_iff)
  then show ?thesis
    by (simp add: preprocess_fasta_window np_array_uint32_def)
qed

lemma build_index_empty_file: "build_index [] chunk_size = Inl ValueError"
proof -
  have "num_windows [] chunk_size = 0"
    by (cases "chunk_size = 0") (simp_all add: num_windows_def)
  then show ?thesis
    by (simp add: build_index_def scan_windows_def merge_fasta_metadata_def)
qed

lemma num_windows_positive:
  assumes "file \<noteq> []" and "0 < chunk_size"
  shows "0 < num_windows file chunk_size"
proof -
  have "chunk_size \<le> length file + chunk_size - 1"
    using assms(1) by (cases "file") simp_all
  then show ?thesis
    using assms(2) by (simp add: num_windows_def div_greater_zero_iff)
qed

lemma build_index_returns:
  assumes "length file < 2 ^ 32" and "file \<noteq> []" and "0 < chunk_size"
  shows "\<exists>idx num_sequences. build_index file chunk_size = Inr (idx, num_sequences)"
proof -
  let ?flat = "\<lambda>ps. concat (map (\<lambda>(a, b). [a, b]) ps)"
  let ?metas = "map (\<lambda>i. ?flat (window_pairs file i chunk_size)) [0..<num_windows file chunk_size]"
  have "scan_windows file chunk_size = map Inr ?metas"
    by (simp add: scan_windows_def window_returns [OF assms(1)])
  then have "collect (scan_windows file chunk_size) = Inr ?metas"
    by (simp only: collect_map_Inr)
  moreover have "?metas \<noteq> []"
    using num_windows_positive [OF assms(2,3)] by simp
  ultimately show ?thesis
    by (simp add: build_index_def merge_fasta_metadata_def)
qed

lemma build_index_rows:
  assumes "build_index file chunk_size = Inr (idx, num_sequences)"
  shows "rows idx = concat (map (\<lambda>i. window_pairs file i chunk_size) [0..<num_windows file chunk_size])
       \<and> length idx = 2 * num_sequences"
proof -
  let ?n = "num_windows file chunk_size"
  let ?flat = "\<lambda>ps. concat (map (\<lambda>(a, b). [a, b]) ps)"
  let ?pss = "map (\<lambda>i. window_pairs file i chunk_size) [0..<?n]"
  obtain metas where c: "collect (scan_windows file chunk_size) = Inr metas"
      and m: "merge_fasta_metadata metas = Inr (idx, num_sequences)"
    using assms by (auto simp: build_index_def split: sum.splits)
  have sw: "scan_windows file chunk_size = map Inr metas"
    using collect_Inr [OF c] .
  have "length (scan_windows file chunk_size) = length metas"
    by (simp only: sw length_map)
  moreover have "length (scan_windows file chunk_size) = ?n"
    by (simp add: scan_windows_def)
  ultimately have len: "length metas = ?n"
    by simp
  have "metas ! i = ?flat (window_pairs file i chunk_size)" if i: "i < ?n" for i
  proof -
    have "scan_windows file chunk_size ! i = Inr (metas ! i)"
      using sw i len by simp
    then have "preprocess_fasta file (window file i chunk_size) i chunk_size ?n = Inr (metas ! i)"
      using i by (simp add: scan_windows_def)
    then show ?thesis by (rule window_meta)
  qed
  then have metas: "metas = map ?flat ?pss"
    using len by (intro nth_equalityI) simp_all
  have idx: "idx = concat (map ?flat ?pss)"
    using m metas by (simp add: merge_fasta_metadata_def Let_def split: if_splits)
  have r: "rows idx = concat ?pss"
    unfolding idx by (rule rows_concat_flat)
  have l: "length idx = 2 * length (concat ?pss)"
    unfolding idx by (rule length_concat_flat)
  have "sum_list (map length metas) = length idx"
    using m by (auto simp: merge_fasta_metadata_def Let_def length_concat split: if_splits)
  then have "num_sequences = length (concat ?pss)"
    using m l by (simp add: merge_fasta_metadata_def Let_def split: if_splits)
  then show ?thesis using r l by simp
qed

text \<open>
  C9: every boundary pair that the scanner emits for a window of the file has its header
  start below its sequence start, and the pairs of a window are in non-decreasing order of
  header start; after the windows are merged in file order, the index reshapes to rows
  that are sorted by header start and by sequence start (and each row still has its
  header start below its sequence start). Both hold whenever the scanner returns, that is
  when every offset fits the unsigned 32-bit array; for a file of fewer than \<open>2 ^ 32\<close>
  bytes the scanner returns for every window, and the merge returns when there is at
  least one window (a file that is not empty, cut with a positive chunk size).
\<close>

theorem scanner_index_sorted:
  "(preprocess_fasta file (window file chunk_id chunk_size) chunk_id chunk_size num_chunks = Inr meta
      \<longrightarrow> (\<forall>(header_start, sequence_start) \<in> set (rows meta). header_start < sequence_start)
          \<and> sorted (map fst (rows meta)))
   \<and> (build_index file chunk_size = Inr (idx, num_sequences)
      \<longrightarrow> reshape idx num_sequences = Inr (rows idx)
          \<and> sorted (map fst (rows idx)) \<and> sorted (map snd (rows idx))
          \<and> (\<forall>(header_start, sequence_start) \<in> set (rows idx). header_start < sequence_start))
   \<and> (length file < 2 ^ 32
      \<longrightarrow> (\<exists>meta. preprocess_fasta file (window file chunk_id chunk_size) chunk_id chunk_size num_chunks = Inr meta))
   \<and> (length file < 2 ^ 32 \<and> file \<noteq> [] \<and> 0 < chunk_size
      \<longrightarrow> (\<exists>idx num_sequences. build_index file chunk_size = Inr (idx, num_sequences)))"
proof (intro conjI impI)
  assume r: "preprocess_fasta file (window file chunk_id chunk_size) chunk_id chunk_size num_chunks = Inr meta"
  have rows: "rows meta = window_pairs file chunk_id chunk_size"
    using window_meta [OF r] by (simp add: rows_flat)
  show "\<forall>(header_start, sequence_start) \<in> set (rows meta). header_start < sequence_start"
    using window_pairs_bounds [of _ "file" chunk_id chunk_size] by (auto simp: rows)
  show "sorted (map fst (rows meta))"
    using window_pairs_sorted [of "file" chunk_id chunk_size]
    by (simp add: rows strict_sorted_imp_sorted)
next
  assume b: "build_index file chunk_size = Inr (idx, num_sequences)"
  let ?all = "concat (map (\<lambda>i. window_pairs file i chunk_size) [0..<num_windows file chunk_size])"
  have rows: "rows idx = ?all" and len: "length idx = 2 * num_sequences"
    using build_index_rows [OF b] by simp_all
  have each: "\<forall>p \<in> set ?all. snd p = line_end file (fst p) \<and> fst p < snd p"
    using window_pairs_bounds [of _ "file" _ chunk_size] by auto
  have strict: "sorted_wrt (<) (map fst ?all)"
    using concat_windows_sorted [of "file" chunk_size "num_windows file chunk_size"] by simp
  show "reshape idx num_sequences = Inr (rows idx)"
    using len by (simp add: reshape_def)
  show "sorted (map fst (rows idx))"
    using strict by (simp add: rows strict_sorted_imp_sorted)
  show "sorted (map snd (rows idx))"
    unfolding rows using strict each by (intro sorted_line_end [of _ "file"]) simp_all
  show "\<forall>(header_start, sequence_start) \<in> set (rows idx). header_start < sequence_start"
  proof
    fix p assume "p \<in> set (rows idx)"
    then have "p \<in> set ?all" by (simp only: rows)
    then have "fst p < snd p" using each by blast
    then show "case p of (header_start, sequence_start) \<Rightarrow> header_start < sequence_start"
      by (simp add: split_beta)
  qed
next
  assume small: "length file < 2 ^ 32"
  show "\<exists>meta. preprocess_fasta file (window file chunk_id chunk_size) chunk_id chunk_size num_chunks = Inr meta"
    using window_returns [OF small] by blast
next
  assume "length file < 2 ^ 32 \<and> file \<noteq> [] \<and> 0 < chunk_size"
  then show "\<exists>idx num_sequences. build_index file chunk_size = Inr (idx, num_sequences)"
    using build_index_returns by blast
qed

text \<open>A file of two records cut into windows of 8 bytes, the cut inside the second header.\<close>

lemma scan_8: "build_index ''>a\<newline>AC\<newline>>b\<newline>GT\<newline>'' 8 = Inr ([0, 3, 6, 9], 2)"
  by (simp add: scanner_eval)

lemma scan_8_0: "preprocess_fasta ''>a\<newline>AC\<newline>>b\<newline>GT\<newline>''
     (window ''>a\<newline>AC\<newline>>b\<newline>GT\<newline>'' 0 8) 0 8 2 = Inr [0, 3, 6, 9]"
  by (simp add: scanner_eval)

theorem scanner_index_sorted_witness:
  "length ''>a\<newline>AC\<newline>>b\<newline>GT\<newline>'' < 2 ^ 32
   \<and> ''>a\<newline>AC\<newline>>b\<newline>GT\<newline>'' \<noteq> [] \<and> (0::nat) < 8
   \<and> preprocess_fasta ''>a\<newline>AC\<newline>>b\<newline>GT\<newline>''
     (window ''>a\<newline>AC\<newline>>b\<newline>GT\<newline>'' 0 8) 0 8 2 = Inr [0, 3, 6, 9]
   \<and> build_index ''>a\<newline>AC\<newline>>b\<newline>GT\<newline>'' 8 = Inr ([0, 3, 6, 9], 2)
   \<and> rows [0, 3, 6, 9] = [(0, 3), (6, 9)]
   \<and> reshape [0, 3, 6, 9] 2 = Inr (rows [0, 3, 6, 9])
   \<and> sorted (map fst (rows [0, 3, 6, 9])) \<and> sorted (map snd (rows [0, 3, 6, 9]))
   \<and> list_all (\<lambda>(header_start, sequence_start). header_start < sequence_start) (rows [0, 3, 6, 9])"
  using scan_8 scan_8_0
    scanner_index_sorted [of "''>a\<newline>AC\<newline>>b\<newline>GT\<newline>''" 0 8 2 "[0, 3, 6, 9]" "[0, 3, 6, 9]" 2]
  by (simp add: list_all_iff)

text \<open>
  C5: the spec has the windows, scanned independently and merged in order, give the
  index of the whole file for every cut. The 12-byte file \<^verbatim>\<open>>a\nAC\n>b\nGT\n\<close> cut
  into windows of 7 bytes has the marker of the second header as the last byte of the
  first window: the pattern needs a byte after the marker, so the first window has no match
  there, and the second window starts after the marker and has none either. The merged
  index has one record; the scan of the whole file as one window has two.
\<close>

theorem windows_lose_header_cut_after_marker:
  "window ''>a\<newline>AC\<newline>>b\<newline>GT\<newline>'' 0 7 = ''>a\<newline>AC\<newline>>''
   \<and> window ''>a\<newline>AC\<newline>>b\<newline>GT\<newline>'' 1 7 = ''b\<newline>GT\<newline>''
   \<and> build_index ''>a\<newline>AC\<newline>>b\<newline>GT\<newline>'' 7 = Inr ([0, 3], 1)
   \<and> build_index ''>a\<newline>AC\<newline>>b\<newline>GT\<newline>'' 12 = Inr ([0, 3, 6, 9], 2)"
  by (simp add: scanner_eval)

end
